theory Spec2Isabelle
  imports Main "HOL-Library.AList" "HOL-Library.Sublist" "HOL-Library.Word"
    "HOL-Library.Char_ord" "HOL-Library.List_Lexorder"
begin

section \<open>Data model: JSON values as Python sees them\<close>

text \<open>
  \<^verbatim>\<open>json.loads\<close> produces dicts, lists, strings, ints, floats, booleans and
  \<^verbatim>\<open>None\<close>. A dict keeps its insertion order, so it is an association list;
  \<^verbatim>\<open>k in d\<close> and \<^verbatim>\<open>d[k]\<close> are \<^const>\<open>map_of\<close>, and \<^verbatim>\<open>d[k] = v\<close> is
  \<^const>\<open>AList.update\<close> (the value is replaced where the key stands, a new key is
  appended). A float is carried as its 64 bits; no function of the repository looks at it.
  Python's \<^verbatim>\<open>None\<close> is \<open>JNull\<close>, also where a function returns it as its
  "not found" signal.
\<close>

datatype json =
    JObj "(string \<times> json) list"
  | JList "json list"
  | JStr string
  | JInt int
  | JFloat "64 word"
  | JBool bool
  | JNull

text \<open>
  A Python dict holds every key once. \<open>distinct_keys\<close> is that invariant of the
  representation, for every dict inside a value.
\<close>

fun distinct_keys :: "json \<Rightarrow> bool"
  and distinct_keys_items :: "(string \<times> json) list \<Rightarrow> bool"
  and distinct_keys_list :: "json list \<Rightarrow> bool" where
  "distinct_keys (JObj d) = (distinct (map fst d) \<and> distinct_keys_items d)"
| "distinct_keys (JList xs) = distinct_keys_list xs"
| "distinct_keys (JStr s) = True"
| "distinct_keys (JInt i) = True"
| "distinct_keys (JFloat w) = True"
| "distinct_keys (JBool b) = True"
| "distinct_keys JNull = True"
| "distinct_keys_items [] = True"
| "distinct_keys_items ((k, v) # rest) = (distinct_keys v \<and> distinct_keys_items rest)"
| "distinct_keys_list [] = True"
| "distinct_keys_list (x # xs) = (distinct_keys x \<and> distinct_keys_list xs)"

section \<open>Dotted keys\<close>

text \<open>
  \<^verbatim>\<open>key_string.split('.')\<close>: the pieces between the dots, empty pieces kept, so the
  result is never empty and \<^verbatim>\<open>''.split('.') == ['']\<close>. The scan goes from left to
  right with the piece read so far.
\<close>

fun split_acc :: "string \<Rightarrow> string \<Rightarrow> string list" where
  "split_acc piece [] = [piece]"
| "split_acc piece (c # cs) =
     (if c = CHR ''.'' then piece # split_acc [] cs else split_acc (piece @ [c]) cs)"

definition split_dot :: "string \<Rightarrow> string list" where
  "split_dot key_string = split_acc [] key_string"

section \<open>fetch\_en\_values.py: get\_value\_from\_nested\_dict\<close>

text \<open>
  The \<^verbatim>\<open>for k in keys\<close> loop with \<^verbatim>\<open>current_val\<close> as its state; \<open>None\<close> is the
  early \<^verbatim>\<open>return None\<close> taken when \<^verbatim>\<open>current_val\<close> is not a dict or lacks \<^verbatim>\<open>k\<close>.
\<close>

fun get_loop :: "json \<Rightarrow> string list \<Rightarrow> json option" where
  "get_loop current_val [] = Some current_val"
| "get_loop current_val (k # keys) =
     (case current_val of
        JObj d \<Rightarrow> (case map_of d k of Some v \<Rightarrow> get_loop v keys | None \<Rightarrow> None)
      | _ \<Rightarrow> None)"

definition get_value_from_nested_dict :: "json \<Rightarrow> string \<Rightarrow> json" where
  "get_value_from_nested_dict data_dict key_string =
     (case get_loop data_dict (split_dot key_string) of
        None \<Rightarrow> JNull
      | Some current_val \<Rightarrow> (case current_val of JStr s \<Rightarrow> JStr s | _ \<Rightarrow> JNull))"

section \<open>update\_pl\_ui.py: set\_nested\_value\<close>

datatype error = TypeError

text \<open>
  The \<^verbatim>\<open>for i, k in enumerate(keys)\<close> loop on a dict \<^verbatim>\<open>current_level\<close>. At the last
  key the value is stored. Before it, a key that is absent or holds something that is not
  a dict gets \<^verbatim>\<open>OrderedDict()\<close>, and the loop goes on inside \<^verbatim>\<open>current_level[k]\<close>;
  the dict is mutated in place, so the model returns it updated. \<open>sub_level\<close> is the
  dict the loop goes on in: the one \<^verbatim>\<open>k\<close> holds, or the fresh empty one.
\<close>

definition sub_level :: "(string \<times> json) list \<Rightarrow> string \<Rightarrow> (string \<times> json) list" where
  "sub_level current_level k =
     (case map_of current_level k of Some (JObj d) \<Rightarrow> d | _ \<Rightarrow> [])"

fun set_loop :: "(string \<times> json) list \<Rightarrow> string list \<Rightarrow> json \<Rightarrow> (string \<times> json) list" where
  "set_loop current_level [] v = current_level"
| "set_loop current_level [k] v = AList.update k v current_level"
| "set_loop current_level (k # k' # keys) v =
     AList.update k (JObj (set_loop (sub_level current_level k) (k' # keys) v)) current_level"

text \<open>
  Only the argument itself can fail to be a dict (every level below it is one once the
  loop has passed); then the item assignment, the subscript or the \<^verbatim>\<open>in\<close> test raises
  \<^verbatim>\<open>TypeError\<close> at the first key. The Python function returns nothing: the result
  here is the state of \<^verbatim>\<open>data_dict\<close> after the call. The trees of the scripts come
  from \<^verbatim>\<open>json.loads\<close> and \<^verbatim>\<open>OrderedDict()\<close>, so no dict stands at two places
  of a tree and a tree is a value.
\<close>

definition set_nested_value :: "json \<Rightarrow> string \<Rightarrow> json \<Rightarrow> error + json" where
  "set_nested_value data_dict key_string v =
     (case data_dict of
        JObj d \<Rightarrow> Inr (JObj (set_loop d (split_dot key_string) v))
      | _ \<Rightarrow> Inl TypeError)"

text \<open>
  The merge loop of \<^verbatim>\<open>main\<close>: \<^verbatim>\<open>for key, value in new_translations.items():
  set_nested_value(existing_data, key, value)\<close>. The patch is a dict from dotted keys to
  strings, walked in its insertion order; an exception ends the loop.
\<close>

fun apply_patches :: "json \<Rightarrow> (string \<times> string) list \<Rightarrow> error + json" where
  "apply_patches existing_data [] = Inr existing_data"
| "apply_patches existing_data ((key, value) # rest) =
     (case set_nested_value existing_data key (JStr value) of
        Inl e \<Rightarrow> Inl e
      | Inr updated \<Rightarrow> apply_patches updated rest)"

section \<open>extract\_keys.py: extract\_keys\_recursive\<close>

text \<open>
  \<^verbatim>\<open>current_key = f"{prefix}.{key}" if prefix else key\<close> (the parameter is
  \<open>prefix'\<close> here).
\<close>

definition current_key :: "string \<Rightarrow> string \<Rightarrow> string" where
  "current_key prefix' key = (if prefix' \<noteq> [] then prefix' @ ''.'' @ key else key)"

text \<open>
  \<open>extract_items\<close> is the loop over \<^verbatim>\<open>data.items()\<close>: a dict value is flattened
  under the longer prefix, a string value gives its key, any other value gives nothing.
  Python's recursion limit is not modelled: the function is total here.
\<close>

fun extract_keys_recursive :: "json \<Rightarrow> string \<Rightarrow> string list"
  and extract_items :: "(string \<times> json) list \<Rightarrow> string \<Rightarrow> string list" where
  "extract_keys_recursive (JObj d) prefix' = extract_items d prefix'"
| "extract_keys_recursive (JList xs) prefix' = []"
| "extract_keys_recursive (JStr s) prefix' = []"
| "extract_keys_recursive (JInt i) prefix' = []"
| "extract_keys_recursive (JFloat w) prefix' = []"
| "extract_keys_recursive (JBool b) prefix' = []"
| "extract_keys_recursive JNull prefix' = []"
| "extract_items [] prefix' = []"
| "extract_items ((key, value) # rest) prefix' =
     (case value of
        JObj d \<Rightarrow> extract_keys_recursive value (current_key prefix' key)
      | JStr s \<Rightarrow> [current_key prefix' key]
      | _ \<Rightarrow> [])
     @ extract_items rest prefix'"

section \<open>Files and the JSON parser\<close>

text \<open>
  The scripts read files and call \<^verbatim>\<open>json.loads\<close>. Both are inputs of the model:
  \<open>read_file\<close> gives, for a path, the text that \<^verbatim>\<open>open\<close> and \<^verbatim>\<open>f.read()\<close>
  return or the exception they raise, and \<open>json_loads\<close> gives the value parsed from
  a text or the exception. The exceptions are the three kinds the \<^verbatim>\<open>except\<close> clauses
  tell apart.
\<close>

datatype exn = FileNotFoundError | JSONDecodeError | OtherException

text \<open>
  \<^verbatim>\<open>not content.strip()\<close>: the text holds nothing but white space
  (\<^verbatim>\<open>str.isspace\<close> on the characters a \<^typ>\<open>char\<close> can hold).
\<close>

definition isspace :: "char \<Rightarrow> bool" where
  "isspace c = (of_char c \<in> {9..13::nat} \<union> {28..32} \<union> {133, 160})"

definition strip_is_empty :: "string \<Rightarrow> bool" where
  "strip_is_empty content = list_all isspace content"

section \<open>extract\_keys.py: get\_keys\_for\_language and main\<close>

text \<open>\<^verbatim>\<open>f"public/locales/{lang_code}/{namespace}.json"\<close>\<close>

definition locale_path :: "string \<Rightarrow> string \<Rightarrow> string" where
  "locale_path lang_code namespace =
     ''public/locales/'' @ lang_code @ ''/'' @ namespace @ ''.json''"

definition get_keys_for_language ::
  "(string \<Rightarrow> exn + string) \<Rightarrow> (string \<Rightarrow> exn + json) \<Rightarrow> string \<Rightarrow> string \<Rightarrow> string set" where
  "get_keys_for_language read_file json_loads lang_code namespace =
     (case read_file (locale_path lang_code namespace) of
        Inl FileNotFoundError \<Rightarrow> {}
      | Inl JSONDecodeError \<Rightarrow> {}
      | Inl OtherException \<Rightarrow> {}
      | Inr content \<Rightarrow>
          if strip_is_empty content then {}
          else (case json_loads content of
                  Inl FileNotFoundError \<Rightarrow> {}
                | Inl JSONDecodeError \<Rightarrow> {}
                | Inl OtherException \<Rightarrow> {}
                | Inr json_data \<Rightarrow> set (extract_keys_recursive json_data [])))"

definition namespaces :: "string list" where
  "namespaces = [''common'', ''entities'', ''ui'']"

text \<open>
  \<^verbatim>\<open>main\<close> fills \<^verbatim>\<open>results\<close>, one entry for each namespace in turn:
  \<^verbatim>\<open>results[f"missing_pl_{ns}_keys"] = sorted(list(en_keys - pl_keys))\<close>. Strings
  are ordered as Python orders them, by their characters from the left. The lines
  printed from \<^verbatim>\<open>results\<close> and the messages on the error stream are left out.
\<close>

definition missing_keys :: "string set \<Rightarrow> string set \<Rightarrow> string list" where
  "missing_keys en_keys pl_keys = sorted_list_of_set (en_keys - pl_keys)"

definition differ_main ::
  "(string \<Rightarrow> exn + string) \<Rightarrow> (string \<Rightarrow> exn + json) \<Rightarrow> (string \<times> string list) list" where
  "differ_main read_file json_loads =
     map (\<lambda>ns. (''missing_pl_'' @ ns @ ''_keys'',
                missing_keys (get_keys_for_language read_file json_loads ''en'' ns)
                             (get_keys_for_language read_file json_loads ''pl'' ns)))
       namespaces"

section \<open>fetch\_en\_values.py: main\<close>

definition target_keys :: "string list" where
  "target_keys =
     [''forms.tabs.advanced'', ''forms.tabs.basic'', ''forms.tabs.details'',
      ''forms.tabs.history'', ''forms.tabs.metadata'', ''forms.tabs.notes'',
      ''forms.tabs.permissions'', ''forms.tabs.properties'', ''forms.tabs.relationships'',
      ''forms.tabs.secrets'', ''forms.validation.categoryRequired'',
      ''forms.validation.descriptionRequired'', ''forms.validation.fileTooLarge'',
      ''forms.validation.invalidFileType'', ''forms.validation.nameRequired'',
      ''forms.validation.passwordTooShort'', ''forms.validation.passwordsDoNotMatch'',
      ''forms.validation.titleRequired'', ''forms.validation.typeRequired'']"

definition ui_en_file_path :: string where
  "ui_en_file_path = ''public/locales/en/ui.json''"

text \<open>\<^verbatim>\<open>f"ERROR: Value for key '{key}' not found or not a string."\<close>\<close>

definition not_found_message :: "string \<Rightarrow> string" where
  "not_found_message key =
     ''ERROR: Value for key '' @ [CHR 0x27] @ key @ [CHR 0x27] @ '' not found or not a string.''"

text \<open>
  The loop \<^verbatim>\<open>for key in target_keys\<close> with the dict \<^verbatim>\<open>results\<close> as its state:
  \<^verbatim>\<open>results[key]\<close> becomes the value found, or the message when the lookup gave
  \<^verbatim>\<open>None\<close>.
\<close>

fun fetch_loop :: "json \<Rightarrow> string list \<Rightarrow> (string \<times> json) list \<Rightarrow> (string \<times> json) list" where
  "fetch_loop ui_en_data [] results = results"
| "fetch_loop ui_en_data (key # keys) results =
     (let value = get_value_from_nested_dict ui_en_data key in
      fetch_loop ui_en_data keys
        (AList.update key
           (if value \<noteq> JNull then value else JStr (not_found_message key)) results))"

text \<open>
  What \<^verbatim>\<open>main\<close> prints as a JSON object: \<^verbatim>\<open>results\<close> after the loop, or the
  empty object on each path that ends in \<^verbatim>\<open>print(json.dumps({}))\<close>. The list of
  requested keys is a parameter; the script's own run is \<open>fetch_main\<close>.
\<close>

definition fetch_main_for ::
  "string list \<Rightarrow> (string \<Rightarrow> exn + string) \<Rightarrow> (string \<Rightarrow> exn + json) \<Rightarrow> (string \<times> json) list" where
  "fetch_main_for keys read_file json_loads =
     (case read_file ui_en_file_path of
        Inl FileNotFoundError \<Rightarrow> []
      | Inl JSONDecodeError \<Rightarrow> []
      | Inl OtherException \<Rightarrow> []
      | Inr content \<Rightarrow>
          if strip_is_empty content then []
          else (case json_loads content of
                  Inl FileNotFoundError \<Rightarrow> []
                | Inl JSONDecodeError \<Rightarrow> []
                | Inl OtherException \<Rightarrow> []
                | Inr ui_en_data \<Rightarrow> fetch_loop ui_en_data keys []))"

definition fetch_main ::
  "(string \<Rightarrow> exn + string) \<Rightarrow> (string \<Rightarrow> exn + json) \<Rightarrow> (string \<times> json) list" where
  "fetch_main = fetch_main_for target_keys"

section \<open>Notions the claims are stated with\<close>

text \<open>
  Walking a tree along segments, in the words of the specification: at each step, if the
  current node is a mapping and contains the segment, descend; otherwise there is no
  result.
\<close>

inductive spec_walk :: "json \<Rightarrow> string list \<Rightarrow> json \<Rightarrow> bool" where
  walk_done: "spec_walk node [] node"
| walk_descend:
    "map_of d seg = Some child \<Longrightarrow> spec_walk child segs result
      \<Longrightarrow> spec_walk (JObj d) (seg # segs) result"

text \<open>No key of a dict reached through dicts holds a dot.\<close>

fun dotless_keys :: "json \<Rightarrow> bool"
  and dotless_items :: "(string \<times> json) list \<Rightarrow> bool" where
  "dotless_keys (JObj d) = dotless_items d"
| "dotless_keys (JList xs) = True"
| "dotless_keys (JStr s) = True"
| "dotless_keys (JInt i) = True"
| "dotless_keys (JFloat w) = True"
| "dotless_keys (JBool b) = True"
| "dotless_keys JNull = True"
| "dotless_items [] = True"
| "dotless_items ((k, v) # rest) =
     (CHR ''.'' \<notin> set k \<and> dotless_keys v \<and> dotless_items rest)"

text \<open>The empty key, if the dict has it, does not hold a dict.\<close>

definition empty_key_flat :: "(string \<times> json) list \<Rightarrow> bool" where
  "empty_key_flat d = (case map_of d [] of Some (JObj c) \<Rightarrow> False | _ \<Rightarrow> True)"

text \<open>
  Two lookups show the same thing when both are absent, both are the same value that is
  not a dict, or both are dicts: a dict is shown as a dict, whatever it holds and in
  whatever order.
\<close>

definition node_view :: "json option \<Rightarrow> json option" where
  "node_view r = (case r of Some (JObj d) \<Rightarrow> Some (JObj []) | _ \<Rightarrow> r)"

text \<open>
  The string \<^verbatim>\<open>extract_keys_recursive\<close> builds for a path: the keys taken in turn
  through \<open>current_key\<close>, from the prefix it starts with. \<open>join_dot\<close> is the usual
  joining with dots, the inverse of \<open>split_dot\<close>.
\<close>

fun dotted :: "string \<Rightarrow> string list \<Rightarrow> string" where
  "dotted pre [] = pre"
| "dotted pre (key # keys) = dotted (current_key pre key) keys"

fun join_dot :: "string list \<Rightarrow> string" where
  "join_dot [] = []"
| "join_dot [x] = x"
| "join_dot (x # y # ys) = x @ ''.'' @ join_dot (y # ys)"

text \<open>
  Loading a file fails when opening or reading it raises, when its text is blank, or when
  \<^verbatim>\<open>json.loads\<close> raises.
\<close>

definition load_fails :: "(string \<Rightarrow> exn + string) \<Rightarrow> (string \<Rightarrow> exn + json) \<Rightarrow> string \<Rightarrow> bool" where
  "load_fails read_file json_loads path =
     (case read_file path of
        Inl e \<Rightarrow> True
      | Inr content \<Rightarrow>
          strip_is_empty content \<or> (case json_loads content of Inl e \<Rightarrow> True | Inr j \<Rightarrow> False))"

text \<open>The entry the extractor records for a key.\<close>

definition fetch_entry :: "json \<Rightarrow> string \<Rightarrow> json" where
  "fetch_entry data key =
     (case get_value_from_nested_dict data key of
        JStr s \<Rightarrow> JStr s
      | _ \<Rightarrow> JStr (not_found_message key))"

section \<open>Facts about splitting and walking\<close>

lemma split_dot_Nil [simp]: "split_dot [] = [[]]"
  by (simp add: split_dot_def)

lemma split_dot_Cons [simp]: "split_dot (c # cs) = split_acc [] (c # cs)"
  by (simp add: split_dot_def)

lemma split_acc_nonempty: "split_acc piece s \<noteq> []"
  by (induction s arbitrary: piece) auto

lemma split_dot_nonempty: "split_dot s \<noteq> []"
  by (simp add: split_dot_def split_acc_nonempty)

lemma get_loop_set_loop_same:
  "ks \<noteq> [] \<Longrightarrow> get_loop (JObj (set_loop d ks v)) ks = Some v"
proof (induction d ks v rule: set_loop.induct)
  case (1 current_level v)
  then show ?case by simp
next
  case (2 current_level k v)
  show ?case by (simp add: update_conv')
next
  case (3 current_level k k' keys v)
  then show ?case by (simp add: update_conv')
qed

lemma get_loop_nonobj: "ks \<noteq> [] \<Longrightarrow> (\<And>d. t \<noteq> JObj d) \<Longrightarrow> get_loop t ks = None"
  by (cases ks; cases t) auto

lemma get_loop_empty_obj: "ks \<noteq> [] \<Longrightarrow> get_loop (JObj []) ks = None"
  by (cases ks) auto

lemma get_loop_sub_level:
  "r \<noteq> [] \<Longrightarrow> get_loop (JObj (sub_level d k)) r = get_loop (JObj d) (k # r)"
  by (auto simp: sub_level_def get_loop_empty_obj get_loop_nonobj
      split: option.splits json.splits)

lemma get_loop_set_loop_frame:
  "\<not> prefix q ks \<Longrightarrow> \<not> prefix ks q \<Longrightarrow>
   get_loop (JObj (set_loop d ks v)) q = get_loop (JObj d) q"
proof (induction d ks v arbitrary: q rule: set_loop.induct)
  case (1 current_level v)
  then show ?case by simp
next
  case (2 current_level k v)
  then obtain x r where q: "q = x # r" by (cases q) auto
  with 2 have "x \<noteq> k" by auto
  then show ?case by (simp add: q update_conv')
next
  case (3 current_level k k' keys v)
  then obtain x r where q: "q = x # r" by (cases q) auto
  show ?case
  proof (cases "x = k")
    case False
    then show ?thesis by (simp add: q update_conv')
  next
    case True
    with 3(2,3) q have ind: "\<not> prefix r (k' # keys)" "\<not> prefix (k' # keys) r" by auto
    then have rne: "r \<noteq> []" by auto
    have "get_loop (JObj (set_loop (sub_level current_level k) (k' # keys) v)) r
        = get_loop (JObj (sub_level current_level k)) r"
      using 3(1) ind by blast
    then show ?thesis using True q rne by (simp add: update_conv' get_loop_sub_level)
  qed
qed

lemma get_loop_append:
  "get_loop t (p @ q) = (case get_loop t p of None \<Rightarrow> None | Some c \<Rightarrow> get_loop c q)"
  by (induction t p rule: get_loop.induct) (auto split: json.splits option.splits)

lemma set_loop_Cons:
  "ks \<noteq> [] \<Longrightarrow> set_loop d (k # ks) v = AList.update k (JObj (set_loop (sub_level d k) ks v)) d"
  by (cases ks) auto

lemma get_loop_set_loop_inner:
  "p \<noteq> [] \<Longrightarrow> q \<noteq> [] \<Longrightarrow>
   get_loop (JObj (set_loop d (p @ q) v)) p =
     Some (JObj (set_loop (case get_loop (JObj d) p of Some (JObj c) \<Rightarrow> c | _ \<Rightarrow> []) q v))"
proof (induction p arbitrary: d)
  case Nil
  then show ?case by simp
next
  case (Cons k p)
  have step: "set_loop d (k # p @ q) v = AList.update k (JObj (set_loop (sub_level d k) (p @ q) v)) d"
    using Cons.prems by (simp add: set_loop_Cons)
  show ?case
  proof (cases "p = []")
    case True
    then show ?thesis using Cons.prems
      by (simp add: set_loop_Cons update_conv' sub_level_def split: option.splits json.splits)
  next
    case False
    have "get_loop (JObj (set_loop (sub_level d k) (p @ q) v)) p =
        Some (JObj (set_loop (case get_loop (JObj (sub_level d k)) p of Some (JObj c) \<Rightarrow> c | _ \<Rightarrow> []) q v))"
      using Cons.IH Cons.prems False by blast
    moreover have "get_loop (JObj (sub_level d k)) p = get_loop (JObj d) (k # p)"
      using False by (rule get_loop_sub_level)
    moreover have "get_loop (JObj (set_loop d (k # p @ q) v)) (k # p)
        = get_loop (JObj (set_loop (sub_level d k) (p @ q) v)) p"
      by (simp add: step update_conv')
    ultimately show ?thesis by (simp del: get_loop.simps set_loop.simps)
  qed
qed

lemma get_loop_set_loop_below:
  "ks \<noteq> [] \<Longrightarrow> get_loop (JObj (set_loop d ks v)) (ks @ r) = get_loop v r"
  by (simp add: get_loop_append get_loop_set_loop_same)


lemma spec_walk_get_loop: "spec_walk t p r \<longleftrightarrow> get_loop t p = Some r"
proof
  show "spec_walk t p r \<Longrightarrow> get_loop t p = Some r"
    by (induction rule: spec_walk.induct) auto
  show "get_loop t p = Some r \<Longrightarrow> spec_walk t p r"
    by (induction t p rule: get_loop.induct)
       (auto split: json.splits option.splits intro: spec_walk.intros)
qed

section \<open>Facts about flattening\<close>

lemma map_of_str_extracted:
  "map_of d key = Some (JStr s) \<Longrightarrow> current_key pre key \<in> set (extract_items d pre)"
  by (induction d) (auto split: if_splits)

lemma map_of_obj_extracted:
  "map_of d key = Some (JObj c) \<Longrightarrow>
   set (extract_items c (current_key pre key)) \<subseteq> set (extract_items d pre)"
  by (induction d) (auto split: if_splits)

lemma get_loop_Cons_obj:
  "get_loop t (k # ks) = Some r \<Longrightarrow>
   \<exists>d c. t = JObj d \<and> map_of d k = Some c \<and> get_loop c ks = Some r"
  by (cases t) (auto split: option.splits)

lemma extract_complete:
  "p \<noteq> [] \<Longrightarrow> get_loop (JObj d) p = Some (JStr s) \<Longrightarrow>
   dotted pre p \<in> set (extract_items d pre)"
proof (induction p arbitrary: d pre)
  case Nil
  then show ?case by simp
next
  case (Cons key p)
  from Cons.prems(2) obtain c where c: "map_of d key = Some c" "get_loop c p = Some (JStr s)"
    by (auto split: option.splits)
  show ?case
  proof (cases p)
    case Nil
    with c show ?thesis by (simp add: map_of_str_extracted)
  next
    case (Cons k2 p2)
    with c(2) have "get_loop c (k2 # p2) = Some (JStr s)" by simp
    from get_loop_Cons_obj [OF this] obtain d' where d': "c = JObj d'" by blast
    have "dotted (current_key pre key) p \<in> set (extract_items d' (current_key pre key))"
      using Cons.IH [of d' "current_key pre key"] c(2) d' Cons by simp
    then show ?thesis using map_of_obj_extracted [OF c(1) [unfolded d']] by auto
  qed
qed

lemma get_loop_tail_distinct:
  "key \<notin> fst ` set rest \<Longrightarrow> p \<noteq> [] \<Longrightarrow> get_loop (JObj rest) p = Some r \<Longrightarrow>
   get_loop (JObj ((key, value) # rest)) p = Some r"
proof -
  assume fresh: "key \<notin> fst ` set rest" and ne: "p \<noteq> []"
    and r: "get_loop (JObj rest) p = Some r"
  from ne obtain k ks where p: "p = k # ks" by (cases p) auto
  from r p have "map_of rest k \<noteq> None" by (auto split: option.splits)
  then have "k \<in> fst ` set rest" by (simp add: map_of_eq_None_iff)
  with fresh have "k \<noteq> key" by auto
  with r p show ?thesis by simp
qed

lemma extract_sound:
  "(distinct_keys t \<longrightarrow> (\<forall>k \<in> set (extract_keys_recursive t pre).
       \<exists>p s. p \<noteq> [] \<and> get_loop t p = Some (JStr s) \<and> k = dotted pre p))"
  "(distinct (map fst d) \<and> distinct_keys_items d \<longrightarrow> (\<forall>k \<in> set (extract_items d pre).
       \<exists>p s. p \<noteq> [] \<and> get_loop (JObj d) p = Some (JStr s) \<and> k = dotted pre p))"
proof (induction t pre and d pre rule: extract_keys_recursive_extract_items.induct)
  case (9 key "value" rest pre)
  show ?case
  proof (intro impI ballI)
    fix k
    assume wf: "distinct (map fst ((key, value) # rest)) \<and> distinct_keys_items ((key, value) # rest)"
      and k: "k \<in> set (extract_items ((key, value) # rest) pre)"
    from wf have fresh: "key \<notin> fst ` set rest" and wfv: "distinct_keys value"
      and wfr: "distinct (map fst rest) \<and> distinct_keys_items rest" by auto
    from k consider
        (head) "k \<in> set (case value of JObj d \<Rightarrow> extract_keys_recursive value (current_key pre key)
                  | JStr s \<Rightarrow> [current_key pre key] | _ \<Rightarrow> [])"
      | (tail) "k \<in> set (extract_items rest pre)" by auto
    then show "\<exists>p s. p \<noteq> [] \<and> get_loop (JObj ((key, value) # rest)) p = Some (JStr s) \<and> k = dotted pre p"
    proof cases
      case head
      show ?thesis
      proof (cases "value")
        case (JObj d')
        with head 9(1) wfv obtain p s where
          "p \<noteq> []" "get_loop value p = Some (JStr s)" "k = dotted (current_key pre key) p"
          by auto
        then have "key # p \<noteq> [] \<and> get_loop (JObj ((key, value) # rest)) (key # p) = Some (JStr s)
            \<and> k = dotted pre (key # p)" by simp
        then show ?thesis by blast
      next
        case (JStr s)
        with head have "[key] \<noteq> [] \<and> get_loop (JObj ((key, value) # rest)) [key] = Some (JStr s)
            \<and> k = dotted pre [key]" by simp
        then show ?thesis by blast
      qed (use head in auto)
    next
      case tail
      with 9(2) wfr obtain p s where p: "p \<noteq> []" "get_loop (JObj rest) p = Some (JStr s)"
        "k = dotted pre p" by blast
      then show ?thesis using get_loop_tail_distinct [OF fresh p(1,2)] by blast
    qed
  qed
qed auto

lemma dotted_nonempty_prefix:
  "pre \<noteq> [] \<Longrightarrow> dotted pre p = pre @ concat (map (\<lambda>x. ''.'' @ x) p)"
  by (induction p arbitrary: pre) (auto simp: current_key_def)

lemma join_dot_concat: "join_dot (x # xs) = x @ concat (map (\<lambda>y. ''.'' @ y) xs)"
  by (induction xs arbitrary: x) auto

lemma dotted_join_dot:
  "p \<noteq> [] \<Longrightarrow> hd p \<noteq> [] \<or> tl p = [] \<Longrightarrow> dotted [] p = join_dot p"
  by (cases p) (auto simp: current_key_def dotted_nonempty_prefix join_dot_concat)

lemma split_acc_dotless: "CHR ''.'' \<notin> set x \<Longrightarrow> split_acc piece x = [piece @ x]"
  by (induction x arbitrary: piece) auto

lemma split_acc_append:
  "CHR ''.'' \<notin> set x \<Longrightarrow>
   split_acc piece (x @ CHR ''.'' # rest) = (piece @ x) # split_acc [] rest"
  by (induction x arbitrary: piece) auto

lemma split_join_dot:
  "p \<noteq> [] \<Longrightarrow> \<forall>x \<in> set p. CHR ''.'' \<notin> set x \<Longrightarrow> split_dot (join_dot p) = p"
proof (induction p rule: join_dot.induct)
  case 1
  then show ?case by simp
next
  case (2 x)
  then show ?case by (simp add: split_dot_def split_acc_dotless)
next
  case (3 x y ys)
  then show ?case by (simp add: split_dot_def split_acc_append)
qed

lemma join_split_acc: "join_dot (split_acc piece k) = piece @ k"
proof (induction k arbitrary: piece)
  case Nil
  then show ?case by simp
next
  case (Cons c cs)
  show ?case
  proof (cases "c = CHR ''.''")
    case True
    obtain y ys where "split_acc [] cs = y # ys"
      using split_acc_nonempty [of "[]" cs] by (cases "split_acc [] cs") auto
    then show ?thesis using True Cons.IH [of "[]"] by simp
  next
    case False
    then show ?thesis using Cons.IH [of "piece @ [c]"] by simp
  qed
qed

lemma join_split_dot: "join_dot (split_dot k) = k"
  by (simp add: split_dot_def join_split_acc)

lemma dotless_items_map_of:
  "dotless_items d \<Longrightarrow> map_of d k = Some c \<Longrightarrow> CHR ''.'' \<notin> set k \<and> dotless_keys c"
  by (induction d) (auto split: if_splits)

lemma dotless_path:
  "dotless_keys t \<Longrightarrow> get_loop t p = Some r \<Longrightarrow> \<forall>x \<in> set p. CHR ''.'' \<notin> set x"
proof (induction p arbitrary: t)
  case Nil
  then show ?case by simp
next
  case (Cons k p)
  from get_loop_Cons_obj [OF Cons.prems(2)] obtain d c
    where t: "t = JObj d" "map_of d k = Some c" "get_loop c p = Some r" by blast
  with Cons.prems(1) have "CHR ''.'' \<notin> set k" "dotless_keys c"
    using dotless_items_map_of [of d k c] by auto
  with Cons.IH t(3) show ?case by auto
qed

lemma flat_path:
  "empty_key_flat d \<Longrightarrow> get_loop (JObj d) p = Some r \<Longrightarrow> p \<noteq> [] \<Longrightarrow> hd p \<noteq> [] \<or> tl p = []"
  by (cases p; cases "tl p")
     (auto simp: empty_key_flat_def split: option.splits json.splits)

lemma flatten_iff_path:
  assumes "distinct_keys (JObj d)" "empty_key_flat d"
  shows "k \<in> set (extract_keys_recursive (JObj d) []) \<longleftrightarrow>
         (\<exists>p s. p \<noteq> [] \<and> get_loop (JObj d) p = Some (JStr s) \<and> k = join_dot p)"
proof
  assume "k \<in> set (extract_keys_recursive (JObj d) [])"
  with extract_sound(1) [of "JObj d" "[]"] assms(1) obtain p s where
    p: "p \<noteq> []" "get_loop (JObj d) p = Some (JStr s)" "k = dotted [] p" by blast
  have "dotted [] p = join_dot p"
    using dotted_join_dot [OF p(1)] flat_path [OF assms(2) p(2) p(1)] by simp
  with p show "\<exists>p s. p \<noteq> [] \<and> get_loop (JObj d) p = Some (JStr s) \<and> k = join_dot p"
    by auto
next
  assume "\<exists>p s. p \<noteq> [] \<and> get_loop (JObj d) p = Some (JStr s) \<and> k = join_dot p"
  then obtain p s where p: "p \<noteq> []" "get_loop (JObj d) p = Some (JStr s)" "k = join_dot p"
    by blast
  have "dotted [] p \<in> set (extract_items d [])"
    using extract_complete [OF p(1,2)] .
  moreover have "dotted [] p = join_dot p"
    using dotted_join_dot [OF p(1)] flat_path [OF assms(2) p(2) p(1)] by simp
  ultimately show "k \<in> set (extract_keys_recursive (JObj d) [])" using p(3) by simp
qed

lemma flatten_iff_walk:
  assumes "distinct_keys (JObj d)" "dotless_keys (JObj d)" "empty_key_flat d"
  shows "k \<in> set (extract_keys_recursive (JObj d) []) \<longleftrightarrow>
         (\<exists>s. get_loop (JObj d) (split_dot k) = Some (JStr s))"
proof
  assume "k \<in> set (extract_keys_recursive (JObj d) [])"
  with extract_sound(1) [of "JObj d" "[]"] assms(1) obtain p s where
    p: "p \<noteq> []" "get_loop (JObj d) p = Some (JStr s)" "k = dotted [] p" by blast
  have "dotted [] p = join_dot p"
    using dotted_join_dot [OF p(1)] flat_path [OF assms(3) p(2) p(1)] by simp
  moreover have "split_dot (join_dot p) = p"
    using split_join_dot [OF p(1)] dotless_path [OF assms(2) p(2)] by simp
  ultimately show "\<exists>s. get_loop (JObj d) (split_dot k) = Some (JStr s)"
    using p by auto
next
  assume "\<exists>s. get_loop (JObj d) (split_dot k) = Some (JStr s)"
  then obtain s where s: "get_loop (JObj d) (split_dot k) = Some (JStr s)" by blast
  have ne: "split_dot k \<noteq> []" by (rule split_dot_nonempty)
  have "dotted [] (split_dot k) \<in> set (extract_items d [])"
    using extract_complete [OF ne s] .
  moreover have "dotted [] (split_dot k) = k"
    using dotted_join_dot [OF ne] flat_path [OF assms(3) s ne] join_split_dot by simp
  ultimately show "k \<in> set (extract_keys_recursive (JObj d) [])" by simp
qed

section \<open>Facts about patches applied in turn\<close>

lemma node_view_obj [simp]: "node_view (Some (JObj d)) = Some (JObj [])"
  by (simp add: node_view_def)

lemma view_set_loop:
  assumes "ks \<noteq> []"
  shows "node_view (get_loop (JObj (set_loop d ks v)) q) =
     (if prefix ks q then node_view (get_loop v (drop (length ks) q))
      else if prefix q ks then Some (JObj [])
      else node_view (get_loop (JObj d) q))"
proof (cases "prefix ks q")
  case True
  then obtain r where "q = ks @ r" by (auto simp: prefix_def)
  then show ?thesis using assms by (simp add: get_loop_set_loop_below)
next
  case False
  show ?thesis
  proof (cases "prefix q ks")
    case True
    then obtain r where r: "ks = q @ r" by (auto simp: prefix_def)
    with False have rne: "r \<noteq> []" by auto
    show ?thesis
    proof (cases "q = []")
      case True
      then show ?thesis using False by simp
    next
      case qne: False
      have "get_loop (JObj (set_loop d (q @ r) v)) q
          = Some (JObj (set_loop (case get_loop (JObj d) q of Some (JObj c) \<Rightarrow> c | _ \<Rightarrow> []) r v))"
        using qne rne by (rule get_loop_set_loop_inner)
      then show ?thesis using False True r by simp
    qed
  next
    case nq: False
    then show ?thesis using False by (simp add: get_loop_set_loop_frame)
  qed
qed

lemma set_loop_commute_view:
  assumes ind: "\<not> prefix ks1 ks2" "\<not> prefix ks2 ks1"
  shows "node_view (get_loop (JObj (set_loop (set_loop d ks1 v1) ks2 v2)) q) =
         node_view (get_loop (JObj (set_loop (set_loop d ks2 v2) ks1 v1)) q)"
proof -
  from ind have ne: "ks1 \<noteq> []" "ks2 \<noteq> []" by auto
  have a: "\<not> (prefix ks1 q \<and> prefix ks2 q)"
    using ind prefix_same_cases by blast
  have b: "\<not> (prefix ks1 q \<and> prefix q ks2)" "\<not> (prefix ks2 q \<and> prefix q ks1)"
    using ind prefix_order.trans by blast+
  show ?thesis
    using a b by (auto simp: view_set_loop [OF ne(1)] view_set_loop [OF ne(2)])
qed

section \<open>Facts about the drivers\<close>

lemma get_keys_load_fails:
  "load_fails read_file json_loads (locale_path lang_code namespace) \<Longrightarrow>
   get_keys_for_language read_file json_loads lang_code namespace = {}"
  by (auto simp: load_fails_def get_keys_for_language_def split: sum.splits exn.splits)

lemma get_keys_loaded:
  "read_file (locale_path lang_code namespace) = Inr content \<Longrightarrow> \<not> strip_is_empty content \<Longrightarrow>
   json_loads content = Inr json_data \<Longrightarrow>
   get_keys_for_language read_file json_loads lang_code namespace
     = set (extract_keys_recursive json_data [])"
  by (simp add: get_keys_for_language_def)

lemma differ_main_names:
  "map fst (differ_main read_file json_loads) =
     [''missing_pl_common_keys'', ''missing_pl_entities_keys'', ''missing_pl_ui_keys'']"
  by (simp add: differ_main_def namespaces_def)

lemma differ_main_entry:
  "ns \<in> set namespaces \<Longrightarrow>
   map_of (differ_main read_file json_loads) (''missing_pl_'' @ ns @ ''_keys'') =
     Some (missing_keys (get_keys_for_language read_file json_loads ''en'' ns)
                        (get_keys_for_language read_file json_loads ''pl'' ns))"
  by (auto simp: differ_main_def namespaces_def)

lemma fetch_loop_map_of:
  "map_of (fetch_loop data keys results) k =
     (if k \<in> set keys then Some (fetch_entry data k) else map_of results k)"
proof (induction keys arbitrary: results)
  case Nil
  then show ?case by simp
next
  case (Cons key keys)
  have entry: "(if get_value_from_nested_dict data key \<noteq> JNull
        then get_value_from_nested_dict data key else JStr (not_found_message key))
      = fetch_entry data key"
    by (auto simp: fetch_entry_def get_value_from_nested_dict_def split: option.splits json.splits)
  show ?case using Cons.IH
    by (simp add: Let_def entry update_conv' del: fun_upd_apply) (simp add: fun_upd_def)
qed

lemma fetch_loop_keys:
  "fst ` set (fetch_loop data keys results) = fst ` set results \<union> set keys"
  by (induction keys arbitrary: results) (auto simp: Let_def dom_update)

lemma fetch_loop_distinct:
  "distinct (map fst results) \<Longrightarrow> distinct (map fst (fetch_loop data keys results))"
  by (induction keys arbitrary: results) (auto simp: Let_def distinct_update)

lemma fetch_main_loaded:
  "read_file ui_en_file_path = Inr content \<Longrightarrow> \<not> strip_is_empty content \<Longrightarrow>
   json_loads content = Inr data \<Longrightarrow>
   fetch_main_for keys read_file json_loads = fetch_loop data keys []"
  by (simp add: fetch_main_for_def)

lemma fetch_main_load_fails:
  "load_fails read_file json_loads ui_en_file_path \<Longrightarrow>
   fetch_main_for keys read_file json_loads = []"
  by (auto simp: load_fails_def fetch_main_for_def split: sum.splits exn.splits)

section \<open>Claims\<close>

text \<open>
  C1. Round trip of addressing: on every localization tree (a dict), for every dotted key
  and every string, \<^verbatim>\<open>set_nested_value\<close> succeeds, and \<^verbatim>\<open>get_value_from_nested_dict\<close>
  on the tree it leaves, with the same key, returns that string.
\<close>

theorem set_then_get_roundtrip:
  "\<exists>T'. set_nested_value (JObj d) k (JStr v) = Inr T'
        \<and> get_value_from_nested_dict T' k = JStr v"
  by (simp add: set_nested_value_def get_value_from_nested_dict_def
      get_loop_set_loop_same split_dot_nonempty)

text \<open>
  C2, as stated, fails: a key that holds a dot is emitted as it is, and the lookup splits
  it; a dict under the empty key at the root is flattened with an empty prefix, so its
  keys come out as if they stood at the root. Here \<open>x.y\<close> and the empty key are both in
  the output, and the lookup finds neither.
\<close>

theorem flatten_get_counterexample:
  "extract_keys_recursive (JObj [(''x.y'', JStr ''v''), ([], JObj [([], JStr ''w'')])]) []
     = [''x.y'', []]
   \<and> get_value_from_nested_dict
        (JObj [(''x.y'', JStr ''v''), ([], JObj [([], JStr ''w'')])]) ''x.y'' = JNull
   \<and> get_value_from_nested_dict
        (JObj [(''x.y'', JStr ''v''), ([], JObj [([], JStr ''w'')])]) [] = JNull"
  by (simp add: current_key_def get_value_from_nested_dict_def)

text \<open>
  C2, amended. On a tree (a dict, each dict in it holding a key once) where no key of a
  dict reached through dicts holds a dot and the root does not hold a dict under the
  empty key: for every dotted key in the output of \<^verbatim>\<open>extract_keys_recursive\<close> with the
  empty prefix, \<^verbatim>\<open>get_value_from_nested_dict\<close> returns a string, and it is the string
  the walk along the key's segments reaches in the tree.
\<close>

theorem flatten_get_sound:
  assumes "distinct_keys (JObj d)" and "dotless_keys (JObj d)" and "empty_key_flat d"
    and "k \<in> set (extract_keys_recursive (JObj d) [])"
  shows "\<exists>s. get_value_from_nested_dict (JObj d) k = JStr s
            \<and> spec_walk (JObj d) (split_dot k) (JStr s)"
proof -
  from flatten_iff_walk [OF assms(1-3)] assms(4)
  obtain s where "get_loop (JObj d) (split_dot k) = Some (JStr s)" by blast
  then show ?thesis
    by (simp add: get_value_from_nested_dict_def spec_walk_get_loop)
qed

theorem flatten_get_sound_witness:
  "distinct_keys (JObj [(''a'', JObj [(''b'', JStr ''x''), (''n'', JInt 3)]), (''c'', JStr ''y'')])
   \<and> dotless_keys (JObj [(''a'', JObj [(''b'', JStr ''x''), (''n'', JInt 3)]), (''c'', JStr ''y'')])
   \<and> empty_key_flat [(''a'', JObj [(''b'', JStr ''x''), (''n'', JInt 3)]), (''c'', JStr ''y'')]
   \<and> ''a.b'' \<in> set (extract_keys_recursive
        (JObj [(''a'', JObj [(''b'', JStr ''x''), (''n'', JInt 3)]), (''c'', JStr ''y'')]) [])
   \<and> (\<exists>s. get_value_from_nested_dict
          (JObj [(''a'', JObj [(''b'', JStr ''x''), (''n'', JInt 3)]), (''c'', JStr ''y'')]) ''a.b''
          = JStr s
        \<and> spec_walk
          (JObj [(''a'', JObj [(''b'', JStr ''x''), (''n'', JInt 3)]), (''c'', JStr ''y'')])
          (split_dot ''a.b'') (JStr s))"
proof -
  let ?d = "[(''a'', JObj [(''b'', JStr ''x''), (''n'', JInt 3)]), (''c'', JStr ''y'')]"
  have h1: "distinct_keys (JObj ?d)" by simp
  have h2: "dotless_keys (JObj ?d)" by simp
  have h3: "empty_key_flat ?d" by (simp add: empty_key_flat_def)
  have h4: "''a.b'' \<in> set (extract_keys_recursive (JObj ?d) [])"
    by (simp add: current_key_def)
  show ?thesis using h1 h2 h3 h4 flatten_get_sound [OF h1 h2 h3 h4] by simp
qed

text \<open>
  C3. Contract of \<^verbatim>\<open>get_value_from_nested_dict\<close>, on every JSON value and every
  dotted key. It is a total function (no exception can leave it: the only subscript is
  guarded by the \<^verbatim>\<open>isinstance\<close> and \<^verbatim>\<open>in\<close> tests), and its result is a string or
  \<^verbatim>\<open>None\<close>, never a sub-tree. It is the string when walking the segments, as the
  specification describes the walk, reaches a string; it is \<^verbatim>\<open>None\<close> whenever the
  walk reaches no string: the path is absent (a segment is missing or a node on the way
  is not a mapping), or the node reached is a mapping or any other value.
\<close>

theorem get_contract:
  "((\<exists>s. get_value_from_nested_dict T k = JStr s) \<or> get_value_from_nested_dict T k = JNull)
   \<and> (spec_walk T (split_dot k) (JStr s) \<longrightarrow> get_value_from_nested_dict T k = JStr s)
   \<and> ((\<forall>s'. \<not> spec_walk T (split_dot k) (JStr s')) \<longrightarrow> get_value_from_nested_dict T k = JNull)"
  by (auto simp: get_value_from_nested_dict_def spec_walk_get_loop
      split: option.splits json.splits)

theorem get_contract_witness:
  "spec_walk (JObj [(''x'', JObj [(''y'', JStr ''v'')])]) (split_dot ''x.y'') (JStr ''v'')
   \<and> get_value_from_nested_dict (JObj [(''x'', JObj [(''y'', JStr ''v'')])]) ''x.y'' = JStr ''v''
   \<and> (\<forall>s'. \<not> spec_walk (JObj [(''x'', JObj [(''y'', JStr ''v'')])]) (split_dot ''x'') (JStr s'))
   \<and> get_value_from_nested_dict (JObj [(''x'', JObj [(''y'', JStr ''v'')])]) ''x'' = JNull"
  using get_contract [of "JObj [(''x'', JObj [(''y'', JStr ''v'')])]" "''x.y''" "''v''"]
    get_contract [of "JObj [(''x'', JObj [(''y'', JStr ''v'')])]" "''x''" "''v''"]
  by (simp add: spec_walk_get_loop)

text \<open>
  C4. Overwrite policy of \<^verbatim>\<open>set_nested_value\<close>, on every dict, dotted key and value.
  After the call the walk along the key's segments ends in the value, whatever stood
  there. For every cut of the segments into a part \<open>p\<close> walked so far and a rest \<open>q\<close>
  (both non-empty): if \<open>p\<close> led to a mapping before, that mapping stays and the rest of
  the loop runs in it; if \<open>p\<close> was absent or led to anything else, the node at \<open>p\<close> is
  now what the rest of the loop makes of an empty mapping, and the old value is gone.
\<close>

theorem set_overwrite_policy:
  "\<exists>T'. set_nested_value (JObj d) k v = Inr T'
     \<and> get_loop T' (split_dot k) = Some v
     \<and> (\<forall>p q c. split_dot k = p @ q \<and> p \<noteq> [] \<and> q \<noteq> [] \<and> get_loop (JObj d) p = Some (JObj c)
           \<longrightarrow> get_loop T' p = Some (JObj (set_loop c q v)))
     \<and> (\<forall>p q. split_dot k = p @ q \<and> p \<noteq> [] \<and> q \<noteq> []
                 \<and> (\<forall>c. get_loop (JObj d) p \<noteq> Some (JObj c))
           \<longrightarrow> get_loop T' p = Some (JObj (set_loop [] q v)))"
proof -
  have inner: "get_loop (JObj (set_loop d (split_dot k) v)) p =
      Some (JObj (set_loop (case get_loop (JObj d) p of Some (JObj c) \<Rightarrow> c | _ \<Rightarrow> []) q v))"
    if "split_dot k = p @ q" "p \<noteq> []" "q \<noteq> []" for p q
    using that get_loop_set_loop_inner [of p q d v] by simp
  have a: "get_loop (JObj (set_loop d (split_dot k) v)) p = Some (JObj (set_loop c q v))"
    if "split_dot k = p @ q" "p \<noteq> []" "q \<noteq> []" "get_loop (JObj d) p = Some (JObj c)" for p q c
    using inner [OF that(1-3)] that(4) by simp
  have b: "get_loop (JObj (set_loop d (split_dot k) v)) p = Some (JObj (set_loop [] q v))"
    if "split_dot k = p @ q" "p \<noteq> []" "q \<noteq> []" "\<forall>c. get_loop (JObj d) p \<noteq> Some (JObj c)" for p q
    using inner [OF that(1-3)] that(4) by (auto split: option.splits json.splits)
  show ?thesis
    unfolding set_nested_value_def
    using a b by (simp add: get_loop_set_loop_same split_dot_nonempty)
qed

theorem set_overwrite_policy_witness:
  "\<exists>T'. set_nested_value (JObj [(''a'', JStr ''x''), (''m'', JObj [(''n'', JStr ''y'')])]) ''a.b''
           (JObj [(''z'', JStr ''v'')]) = Inr T'
     \<and> get_loop T' [''a'', ''b''] = Some (JObj [(''z'', JStr ''v'')])
     \<and> get_loop T' [''a''] = Some (JObj [(''b'', JObj [(''z'', JStr ''v'')])])"
  using set_overwrite_policy
    [of "[(''a'', JStr ''x''), (''m'', JObj [(''n'', JStr ''y'')])]" "''a.b''" "JObj [(''z'', JStr ''v'')]"]
  by (simp add: set_nested_value_def sub_level_def)

text \<open>
  C5, as stated, fails in both directions on a tree with a dotted key and a dict under
  the empty key at the root: \<open>a.b\<close> and \<open>c\<close> are emitted though following their
  segments reaches nothing, and following the segments of \<open>.c\<close> reaches a string though
  \<open>.c\<close> is not emitted.
\<close>

theorem flatten_exact_counterexample:
  "extract_keys_recursive (JObj [(''a.b'', JStr ''x''), ([], JObj [(''c'', JStr ''y'')])]) []
     = [''a.b'', ''c'']
   \<and> get_loop (JObj [(''a.b'', JStr ''x''), ([], JObj [(''c'', JStr ''y'')])])
        (split_dot ''a.b'') = None
   \<and> get_loop (JObj [(''a.b'', JStr ''x''), ([], JObj [(''c'', JStr ''y'')])])
        (split_dot ''c'') = None
   \<and> get_loop (JObj [(''a.b'', JStr ''x''), ([], JObj [(''c'', JStr ''y'')])])
        (split_dot ''.c'') = Some (JStr ''y'')"
  by (simp add: current_key_def)

text \<open>
  C5, amended. On a tree (a dict, each dict in it holding a key once) whose root does not
  hold a dict under the empty key, \<^verbatim>\<open>extract_keys_recursive\<close> with the empty prefix
  emits exactly the keys of the paths that reach a string: a string is in the output if
  and only if it is the segments of such a path joined with dots. So an entry whose value
  is a number, a list, a boolean or null is not emitted, and nothing is reported for it:
  the function has no error result. When moreover no key of a dict reached through dicts
  holds a dot, a dotted key is in the output if and only if following its segments in the
  tree reaches a string.
\<close>

theorem flatten_exact:
  assumes "distinct_keys (JObj d)" and "empty_key_flat d"
  shows "(k \<in> set (extract_keys_recursive (JObj d) []) \<longleftrightarrow>
           (\<exists>p s. p \<noteq> [] \<and> spec_walk (JObj d) p (JStr s) \<and> k = join_dot p))
       \<and> (dotless_keys (JObj d) \<longrightarrow>
           (k \<in> set (extract_keys_recursive (JObj d) []) \<longleftrightarrow>
             (\<exists>s. spec_walk (JObj d) (split_dot k) (JStr s))))"
  using flatten_iff_path [OF assms] flatten_iff_walk [OF assms(1) _ assms(2)]
  by (simp add: spec_walk_get_loop)

theorem flatten_exact_witness:
  "distinct_keys (JObj [(''a'', JObj [(''b'', JStr ''x''), (''n'', JInt 3)]), (''l'', JList [JStr ''q''])])
   \<and> empty_key_flat [(''a'', JObj [(''b'', JStr ''x''), (''n'', JInt 3)]), (''l'', JList [JStr ''q''])]
   \<and> dotless_keys (JObj [(''a'', JObj [(''b'', JStr ''x''), (''n'', JInt 3)]), (''l'', JList [JStr ''q''])])
   \<and> (\<exists>s. spec_walk
          (JObj [(''a'', JObj [(''b'', JStr ''x''), (''n'', JInt 3)]), (''l'', JList [JStr ''q''])])
          (split_dot ''a.b'') (JStr s))
   \<and> ''a.n'' \<notin> set (extract_keys_recursive
        (JObj [(''a'', JObj [(''b'', JStr ''x''), (''n'', JInt 3)]), (''l'', JList [JStr ''q''])]) [])"
proof -
  let ?d = "[(''a'', JObj [(''b'', JStr ''x''), (''n'', JInt 3)]), (''l'', JList [JStr ''q''])]"
  have h1: "distinct_keys (JObj ?d)" by simp
  have h2: "empty_key_flat ?d" by (simp add: empty_key_flat_def)
  have h3: "dotless_keys (JObj ?d)" by simp
  have in_out: "''a.b'' \<in> set (extract_keys_recursive (JObj ?d) [])"
    by (simp add: current_key_def)
  have no_str: "\<not> (\<exists>s. spec_walk (JObj ?d) (split_dot ''a.n'') (JStr s))"
    by (simp add: spec_walk_get_loop)
  from flatten_exact [OF h1 h2, of "''a.b''"] h3 in_out
  have r1: "\<exists>s. spec_walk (JObj ?d) (split_dot ''a.b'') (JStr s)" by blast
  from flatten_exact [OF h1 h2, of "''a.n''"] h3 no_str
  have r2: "''a.n'' \<notin> set (extract_keys_recursive (JObj ?d) [])" by blast
  show ?thesis using h1 h2 h3 r1 r2 by blast
qed

text \<open>
  C6. The differ degrades a load failure to the empty key set. Whatever makes the load of a
  namespace's file fail (the file is not found, another exception is raised while it is
  opened or read, its text is blank, \<^verbatim>\<open>json.loads\<close> raises), \<^verbatim>\<open>get_keys_for_language\<close>
  returns the empty set: it has no other failure result. So a reference file
  \<open>{a: x}\<close> against a target that fails to load gives the missing keys \<open>[a]\<close>, and
  \<^verbatim>\<open>main\<close> records an entry for each of the three namespaces, computed from the two
  key sets, whichever loads failed.
\<close>

theorem differ_load_failure:
  "(load_fails read_file json_loads (locale_path lang_code namespace) \<longrightarrow>
      get_keys_for_language read_file json_loads lang_code namespace = {})
   \<and> (read_file (locale_path ''en'' namespace) = Inr content \<and> \<not> strip_is_empty content
        \<and> json_loads content = Inr (JObj [(''a'', JStr ''x'')])
        \<and> load_fails read_file json_loads (locale_path ''pl'' namespace) \<longrightarrow>
      missing_keys (get_keys_for_language read_file json_loads ''en'' namespace)
                   (get_keys_for_language read_file json_loads ''pl'' namespace) = [''a''])
   \<and> map fst (differ_main read_file json_loads) =
       [''missing_pl_common_keys'', ''missing_pl_entities_keys'', ''missing_pl_ui_keys'']
   \<and> (\<forall>ns \<in> set namespaces.
        map_of (differ_main read_file json_loads) (''missing_pl_'' @ ns @ ''_keys'') =
          Some (missing_keys (get_keys_for_language read_file json_loads ''en'' ns)
                             (get_keys_for_language read_file json_loads ''pl'' ns)))"
proof (intro conjI impI ballI)
  assume "load_fails read_file json_loads (locale_path lang_code namespace)"
  then show "get_keys_for_language read_file json_loads lang_code namespace = {}"
    by (rule get_keys_load_fails)
next
  assume h: "read_file (locale_path ''en'' namespace) = Inr content \<and> \<not> strip_is_empty content
      \<and> json_loads content = Inr (JObj [(''a'', JStr ''x'')])
      \<and> load_fails read_file json_loads (locale_path ''pl'' namespace)"
  then have "get_keys_for_language read_file json_loads ''en'' namespace = {''a''}"
    by (simp add: get_keys_loaded current_key_def)
  moreover from h have "get_keys_for_language read_file json_loads ''pl'' namespace = {}"
    by (simp add: get_keys_load_fails)
  ultimately show "missing_keys (get_keys_for_language read_file json_loads ''en'' namespace)
      (get_keys_for_language read_file json_loads ''pl'' namespace) = [''a'']"
    by (simp add: missing_keys_def)
next
  show "map fst (differ_main read_file json_loads) =
      [''missing_pl_common_keys'', ''missing_pl_entities_keys'', ''missing_pl_ui_keys'']"
    by (rule differ_main_names)
next
  fix ns assume "ns \<in> set namespaces"
  then show "map_of (differ_main read_file json_loads) (''missing_pl_'' @ ns @ ''_keys'') =
      Some (missing_keys (get_keys_for_language read_file json_loads ''en'' ns)
                         (get_keys_for_language read_file json_loads ''pl'' ns))"
    by (rule differ_main_entry)
qed

theorem differ_load_failure_witness:
  \<open>load_fails (\<lambda>p. if p = ''public/locales/en/ui.json'' then Inr ''{"a": "x"}'' else Inl FileNotFoundError)
      (\<lambda>c. if c = ''{"a": "x"}'' then Inr (JObj [(''a'', JStr ''x'')]) else Inl JSONDecodeError)
      (locale_path ''pl'' ''ui'')
   \<and> get_keys_for_language
      (\<lambda>p. if p = ''public/locales/en/ui.json'' then Inr ''{"a": "x"}'' else Inl FileNotFoundError)
      (\<lambda>c. if c = ''{"a": "x"}'' then Inr (JObj [(''a'', JStr ''x'')]) else Inl JSONDecodeError)
      ''pl'' ''ui'' = {}
   \<and> missing_keys
       (get_keys_for_language
         (\<lambda>p. if p = ''public/locales/en/ui.json'' then Inr ''{"a": "x"}'' else Inl FileNotFoundError)
         (\<lambda>c. if c = ''{"a": "x"}'' then Inr (JObj [(''a'', JStr ''x'')]) else Inl JSONDecodeError)
         ''en'' ''ui'')
       (get_keys_for_language
         (\<lambda>p. if p = ''public/locales/en/ui.json'' then Inr ''{"a": "x"}'' else Inl FileNotFoundError)
         (\<lambda>c. if c = ''{"a": "x"}'' then Inr (JObj [(''a'', JStr ''x'')]) else Inl JSONDecodeError)
         ''pl'' ''ui'') = [''a'']\<close>
proof -
  let ?rf = \<open>\<lambda>p. if p = ''public/locales/en/ui.json'' then Inr ''{"a": "x"}'' else Inl FileNotFoundError\<close>
  let ?jl = \<open>\<lambda>c. if c = ''{"a": "x"}'' then Inr (JObj [(''a'', JStr ''x'')]) else Inl JSONDecodeError\<close>
  have pl: "load_fails ?rf ?jl (locale_path ''pl'' ''ui'')"
    by (simp add: load_fails_def locale_path_def)
  have en: \<open>?rf (locale_path ''en'' ''ui'') = Inr ''{"a": "x"}''\<close>
    by (simp add: locale_path_def)
  have ne: \<open>\<not> strip_is_empty ''{"a": "x"}''\<close>
    by (simp add: strip_is_empty_def isspace_def)
  have js: \<open>?jl ''{"a": "x"}'' = Inr (JObj [(''a'', JStr ''x'')])\<close> by simp
  show ?thesis
    using pl en ne js
      differ_load_failure [of ?rf ?jl "''pl''" "''ui''" \<open>''{"a": "x"}''\<close>]
    by blast
qed

text \<open>
  C7. The extractor. When the file loads, the mapping it prints has exactly one entry for
  every requested key and no other: the string found, or the diagnostic string when the
  lookup gave \<^verbatim>\<open>None\<close>. When the load fails (an exception while opening or reading, a
  blank text, an exception from \<^verbatim>\<open>json.loads\<close>) the mapping is empty. The requested
  keys are a parameter; the script's run is the instance \<open>fetch_main\<close>.
\<close>

theorem extractor_total:
  "(read_file ui_en_file_path = Inr content \<and> \<not> strip_is_empty content
      \<and> json_loads content = Inr data \<longrightarrow>
      fst ` set (fetch_main_for keys read_file json_loads) = set keys
      \<and> distinct (map fst (fetch_main_for keys read_file json_loads))
      \<and> (\<forall>key \<in> set keys.
           map_of (fetch_main_for keys read_file json_loads) key =
             Some (case get_value_from_nested_dict data key of
                     JStr s \<Rightarrow> JStr s
                   | _ \<Rightarrow> JStr (not_found_message key))))
   \<and> (load_fails read_file json_loads ui_en_file_path \<longrightarrow>
        fetch_main_for keys read_file json_loads = [])"
  by (auto simp: fetch_main_loaded fetch_loop_keys fetch_loop_distinct fetch_loop_map_of
      fetch_entry_def fetch_main_load_fails)

theorem extractor_total_witness:
  \<open>(\<lambda>p. Inr ''{"x": {"y": "v"}}'') ui_en_file_path = Inr ''{"x": {"y": "v"}}''
   \<and> \<not> strip_is_empty ''{"x": {"y": "v"}}''
   \<and> map_of (fetch_main_for [''x.y'', ''z''] (\<lambda>p. Inr ''{"x": {"y": "v"}}'')
         (\<lambda>c. Inr (JObj [(''x'', JObj [(''y'', JStr ''v'')])]))) ''x.y'' = Some (JStr ''v'')
   \<and> map_of (fetch_main_for [''x.y'', ''z''] (\<lambda>p. Inr ''{"x": {"y": "v"}}'')
         (\<lambda>c. Inr (JObj [(''x'', JObj [(''y'', JStr ''v'')])]))) ''z''
       = Some (JStr (not_found_message ''z''))
   \<and> load_fails (\<lambda>p. Inl FileNotFoundError)
         (\<lambda>c. Inr (JObj [(''x'', JObj [(''y'', JStr ''v'')])])) ui_en_file_path
   \<and> fetch_main_for [''x.y'', ''z''] (\<lambda>p. Inl FileNotFoundError)
         (\<lambda>c. Inr (JObj [(''x'', JObj [(''y'', JStr ''v'')])])) = []\<close>
proof -
  let ?rf = \<open>\<lambda>p::string. Inr ''{"x": {"y": "v"}}'' :: exn + string\<close>
  let ?jl = "\<lambda>c::string. Inr (JObj [(''x'', JObj [(''y'', JStr ''v'')])]) :: exn + json"
  let ?nf = "\<lambda>p::string. Inl FileNotFoundError :: exn + string"
  have ne: \<open>\<not> strip_is_empty ''{"x": {"y": "v"}}''\<close>
    by (simp add: strip_is_empty_def isspace_def)
  have lf: "load_fails ?nf ?jl ui_en_file_path" by (simp add: load_fails_def)
  have xy: "get_value_from_nested_dict (JObj [(''x'', JObj [(''y'', JStr ''v'')])]) ''x.y'' = JStr ''v''"
    by (simp add: get_value_from_nested_dict_def)
  have z: "get_value_from_nested_dict (JObj [(''x'', JObj [(''y'', JStr ''v'')])]) ''z'' = JNull"
    by (simp add: get_value_from_nested_dict_def)
  show ?thesis
    using ne lf xy z
      extractor_total [of ?rf \<open>''{"x": {"y": "v"}}''\<close> ?jl
        "JObj [(''x'', JObj [(''y'', JStr ''v'')])]" "[''x.y'', ''z'']"]
      extractor_total [of ?nf \<open>''{"x": {"y": "v"}}''\<close> ?jl
        "JObj [(''x'', JObj [(''y'', JStr ''v'')])]" "[''x.y'', ''z'']"]
    by simp
qed

text \<open>
  C8. Frame property of patching. A path that is no prefix of the key's segments and that
  the key's segments are no prefix of (the paths the claim calls not on the key's path:
  the nodes on the way, the node set and what it held are excluded) leads after
  \<^verbatim>\<open>set_nested_value\<close> to what it led to before, also when that is nothing. The second
  part is the example: the patch \<open>a.b \<mapsto> new\<close> on
  \<open>{a: {b: old, d: keep}}\<close> gives \<open>{a: {b: new, d: keep}}\<close>.
\<close>

theorem set_frame:
  "(\<not> prefix q (split_dot k) \<and> \<not> prefix (split_dot k) q \<longrightarrow>
      (\<exists>T'. set_nested_value (JObj d) k v = Inr T' \<and> get_loop T' q = get_loop (JObj d) q))
   \<and> apply_patches (JObj [(''a'', JObj [(''b'', JStr ''old''), (''d'', JStr ''keep'')])])
        [(''a.b'', ''new'')]
      = Inr (JObj [(''a'', JObj [(''b'', JStr ''new''), (''d'', JStr ''keep'')])])"
  by (simp add: set_nested_value_def get_loop_set_loop_frame sub_level_def)

theorem set_frame_witness:
  "\<not> prefix [''a'', ''d''] (split_dot ''a.b'') \<and> \<not> prefix (split_dot ''a.b'') [''a'', ''d'']
   \<and> (\<exists>T'. set_nested_value (JObj [(''a'', JObj [(''b'', JStr ''old''), (''d'', JStr ''keep'')])])
              ''a.b'' (JStr ''new'') = Inr T'
          \<and> get_loop T' [''a'', ''d''] = Some (JStr ''keep''))"
  using set_frame [of "[''a'', ''d'']" "''a.b''"
      "[(''a'', JObj [(''b'', JStr ''old''), (''d'', JStr ''keep'')])]" "JStr ''new''"]
  by simp

text \<open>
  C9, as stated, fails: the trees are ordered, a new key is appended, and so two patches
  on new keys leave the keys in the order the patches were applied. On the empty tree the
  patches \<open>a \<mapsto> 1\<close> and \<open>b \<mapsto> 2\<close>, whose keys are independent, give \<open>{a: 1, b: 2}\<close> in
  one order and \<open>{b: 2, a: 1}\<close> in the other.
\<close>

theorem patch_order_counterexample:
  "apply_patches (JObj []) [(''a'', ''1''), (''b'', ''2'')]
     = Inr (JObj [(''a'', JStr ''1''), (''b'', JStr ''2'')])
   \<and> apply_patches (JObj []) [(''b'', ''2''), (''a'', ''1'')]
     = Inr (JObj [(''b'', JStr ''2''), (''a'', JStr ''1'')])
   \<and> \<not> prefix (split_dot ''a'') (split_dot ''b'') \<and> \<not> prefix (split_dot ''b'') (split_dot ''a'')
   \<and> apply_patches (JObj []) [(''a'', ''1''), (''b'', ''2'')]
     \<noteq> apply_patches (JObj []) [(''b'', ''2''), (''a'', ''1'')]"
  by (simp add: set_nested_value_def)

text \<open>
  C9, amended. For every tree (a dict) and any two patch entries whose dotted keys
  address independent paths (the segments of neither are a prefix of the other's),
  applying them in either order succeeds, and the two resulting trees have the same
  content: every path leads in both to the same value that is not a mapping, or in both
  to a mapping, or in both to nothing. Only the order of the keys inside a mapping can
  differ.
\<close>

theorem patch_order_commutes:
  assumes "\<not> prefix (split_dot k1) (split_dot k2)" and "\<not> prefix (split_dot k2) (split_dot k1)"
  shows "\<exists>A B. apply_patches (JObj d) [(k1, v1), (k2, v2)] = Inr A
             \<and> apply_patches (JObj d) [(k2, v2), (k1, v1)] = Inr B
             \<and> (\<forall>q. node_view (get_loop A q) = node_view (get_loop B q))"
  using set_loop_commute_view [OF assms]
  by (simp add: set_nested_value_def)

theorem patch_order_commutes_witness:
  "\<not> prefix (split_dot ''a.b'') (split_dot ''a.c'') \<and> \<not> prefix (split_dot ''a.c'') (split_dot ''a.b'')
   \<and> (\<exists>A B. apply_patches (JObj [(''a'', JStr ''x'')]) [(''a.b'', ''1''), (''a.c'', ''2'')] = Inr A
          \<and> apply_patches (JObj [(''a'', JStr ''x'')]) [(''a.c'', ''2''), (''a.b'', ''1'')] = Inr B
          \<and> node_view (get_loop A [''a'', ''b'']) = node_view (get_loop B [''a'', ''b'']))"
proof -
  have h1: "\<not> prefix (split_dot ''a.b'') (split_dot ''a.c'')" by simp
  have h2: "\<not> prefix (split_dot ''a.c'') (split_dot ''a.b'')" by simp
  from patch_order_commutes [OF h1 h2, of "[(''a'', JStr ''x'')]" "''1''" "''2''"]
  obtain A B where "apply_patches (JObj [(''a'', JStr ''x'')]) [(''a.b'', ''1''), (''a.c'', ''2'')] = Inr A"
    "apply_patches (JObj [(''a'', JStr ''x'')]) [(''a.c'', ''2''), (''a.b'', ''1'')] = Inr B"
    "\<forall>q. node_view (get_loop A q) = node_view (get_loop B q)" by blast
  then show ?thesis using h1 h2 by blast
qed

text \<open>
  C10. The empty dotted key is handled, not rejected. It splits into the single empty
  segment; \<^verbatim>\<open>get_value_from_nested_dict\<close> with it returns the entry under the empty
  key when the tree is a dict that holds a string there, and \<^verbatim>\<open>None\<close> otherwise;
  \<^verbatim>\<open>set_nested_value\<close> with it stores the value under the empty key at the root.
\<close>

theorem empty_key_handled:
  "split_dot [] = [[]]
   \<and> get_value_from_nested_dict T [] =
       (case T of
          JObj d \<Rightarrow> (case map_of d [] of Some (JStr s) \<Rightarrow> JStr s | _ \<Rightarrow> JNull)
        | _ \<Rightarrow> JNull)
   \<and> set_nested_value (JObj d) [] v = Inr (JObj (AList.update [] v d))"
  by (simp add: get_value_from_nested_dict_def set_nested_value_def
      split: json.splits option.splits)

end
